theory Spec2Isabelle
  imports Main "HOL-Library.AList"
begin

section \<open>JavaScript values\<close>

text \<open>
  The values the hooks look at. An object is given by value as two association lists:
  its own properties and the properties it reaches through its prototype chain.
  A promise is given by the way it settles.
\<close>

datatype jsexn = TypeError | Thrown string

datatype settlement = FulfilledP | RejectedP jsexn | PendingP

datatype jsval =
    JUndefined
  | JNull
  | JBool bool
  | JNum int
  | JNaN
  | JStr string
  | JPromise settlement
  | JObj "(string \<times> jsval) list" "(string \<times> jsval) list"

text \<open>Truthiness, as \<^verbatim>\<open>if (v)\<close> and \<^verbatim>\<open>a && b\<close> decide it.\<close>

fun truthy :: "jsval \<Rightarrow> bool" where
  "truthy JUndefined = False"
| "truthy JNull = False"
| "truthy (JBool b) = b"
| "truthy (JNum n) = (n \<noteq> 0)"
| "truthy JNaN = False"
| "truthy (JStr s) = (s \<noteq> [])"
| "truthy (JPromise p) = True"
| "truthy (JObj own inherited) = True"

text \<open>
  \<^verbatim>\<open>Object.prototype.hasOwnProperty.call(event, "defaultPrevented")\<close>: the receiver is
  converted to an object first, which throws a TypeError for \<^verbatim>\<open>undefined\<close> and
  \<^verbatim>\<open>null\<close>. The wrapper of a boolean, a number or a promise has no own property of
  that name; the own keys of a string wrapper are \<^verbatim>\<open>length\<close> and its indices.
\<close>

fun hasOwn_defaultPrevented :: "jsval \<Rightarrow> jsexn + bool" where
  "hasOwn_defaultPrevented JUndefined = Inl TypeError"
| "hasOwn_defaultPrevented JNull = Inl TypeError"
| "hasOwn_defaultPrevented (JObj own inherited) = Inr (''defaultPrevented'' \<in> fst ` set own)"
| "hasOwn_defaultPrevented v = Inr False"

text \<open>
  \<^verbatim>\<open>event.defaultPrevented\<close>: an own property shadows an inherited one; reading a
  property of \<^verbatim>\<open>undefined\<close> or \<^verbatim>\<open>null\<close> throws; no built-in prototype of a
  primitive defines the name.
\<close>

fun read_defaultPrevented :: "jsval \<Rightarrow> jsexn + jsval" where
  "read_defaultPrevented JUndefined = Inl TypeError"
| "read_defaultPrevented JNull = Inl TypeError"
| "read_defaultPrevented (JObj own inherited) =
     (case map_of own ''defaultPrevented'' of
        Some v \<Rightarrow> Inr v
      | None \<Rightarrow> (case map_of inherited ''defaultPrevented'' of
                   Some v \<Rightarrow> Inr v
                 | None \<Rightarrow> Inr JUndefined))"
| "read_defaultPrevented v = Inr JUndefined"

section \<open>use-media-query: the condition evaluator\<close>

text \<open>
  The display environment. \<^verbatim>\<open>window\<close> may be undefined (no value); when it exists,
  \<^verbatim>\<open>matchMedia\<close> may be an own property of it, may only be inherited, or may be
  missing, and the property need not be callable. A callable \<^verbatim>\<open>matchMedia\<close> either
  throws or returns a list object whose \<^verbatim>\<open>matches\<close> is a boolean.
\<close>

datatype matchMedia_prop = NotCallable | MatchMedia "string \<Rightarrow> jsexn + bool"

record window =
  own_matchMedia :: "matchMedia_prop option"
  inherited_matchMedia :: "matchMedia_prop option"

definition isServer :: "window option \<Rightarrow> bool" where
  "isServer win = (win = None)"

text \<open>
  The property read \<^verbatim>\<open>window.matchMedia\<close> (own first, then inherited, else
  \<^verbatim>\<open>undefined\<close>), and the call \<^verbatim>\<open>window.matchMedia(query).matches\<close>: calling
  \<^verbatim>\<open>undefined\<close> or a value that is not a function throws a TypeError.
\<close>

definition window_matchMedia :: "window \<Rightarrow> matchMedia_prop option" where
  "window_matchMedia w =
     (case own_matchMedia w of Some p \<Rightarrow> Some p | None \<Rightarrow> inherited_matchMedia w)"

definition call_matches :: "matchMedia_prop option \<Rightarrow> string \<Rightarrow> jsexn + bool" where
  "call_matches p query =
     (case p of
        Some (MatchMedia f) \<Rightarrow> f query
      | Some NotCallable \<Rightarrow> Inl TypeError
      | None \<Rightarrow> Inl TypeError)"

text \<open>
  The body of the \<^verbatim>\<open>try\<close> block of \<^verbatim>\<open>safeMatch\<close>. (After \<^verbatim>\<open>isServer()\<close> has
  answered no, the window exists: the \<open>None\<close> case below is never taken.)
\<close>

definition safeMatch_try :: "window option \<Rightarrow> string \<Rightarrow> jsexn + bool" where
  "safeMatch_try win query =
     (if isServer win then Inr False
      else
        (case win of
           None \<Rightarrow> Inr False
         | Some w \<Rightarrow>
             if own_matchMedia w = None then Inr False
             else call_matches (window_matchMedia w) query))"

text \<open>\<^verbatim>\<open>safeMatch\<close>: the \<^verbatim>\<open>try\<close> block under its \<^verbatim>\<open>catch { return false }\<close>.\<close>

definition safeMatch :: "window option \<Rightarrow> string \<Rightarrow> jsexn + bool" where
  "safeMatch win query =
     (case safeMatch_try win query of
        Inl e \<Rightarrow> Inr False
      | Inr b \<Rightarrow> Inr b)"

text \<open>
  A plain object with string keys is an association list of its own properties, in the
  order they were created; its keys are distinct. (\<^verbatim>\<open>Object.keys\<close> lists names that
  are array indices first; nothing below depends on the order.) \<^verbatim>\<open>rs[key] = v\<close> on an object created by
  \<^verbatim>\<open>{}\<close> overwrites or appends the own property, except for the key
  \<^verbatim>\<open>__proto__\<close>: that assignment reaches the accessor inherited from
  \<^verbatim>\<open>Object.prototype\<close>, whose setter ignores a value that is neither an object nor
  \<^verbatim>\<open>null\<close>, so a boolean leaves the object as it was.
\<close>

type_synonym 'v jsrecord = "(string \<times> 'v) list"

definition obj_keys :: "'v jsrecord \<Rightarrow> string list" where
  "obj_keys obj = map fst obj"

definition obj_assign :: "bool jsrecord \<Rightarrow> string \<Rightarrow> bool \<Rightarrow> bool jsrecord" where
  "obj_assign rs key v = (if key = ''__proto__'' then rs else AList.update key v rs)"

text \<open>
  \<^verbatim>\<open>query[key]\<close> for a key that \<^verbatim>\<open>Object.keys(query)\<close> returned is the own value.
  (For any other key the read is \<^verbatim>\<open>undefined\<close>, which \<^verbatim>\<open>matchMedia\<close> would turn
  into the text \<^verbatim>\<open>undefined\<close>; \<^verbatim>\<open>matching\<close> never reads one.)
\<close>

definition query_at :: "string jsrecord \<Rightarrow> string \<Rightarrow> string" where
  "query_at query key = (case map_of query key of Some q \<Rightarrow> q | None \<Rightarrow> ''undefined'')"

datatype mediaQuery = QString string | QRecord "string jsrecord"

datatype mediaMatchResult = RBool bool | RRecord "bool jsrecord"

text \<open>The \<^verbatim>\<open>reduce\<close> of \<^verbatim>\<open>matching\<close>, from the accumulator \<^verbatim>\<open>rs\<close>.\<close>

fun matching_reduce ::
  "window option \<Rightarrow> string jsrecord \<Rightarrow> string list \<Rightarrow> bool jsrecord \<Rightarrow> jsexn + bool jsrecord" where
  "matching_reduce win query [] rs = Inr rs"
| "matching_reduce win query (key # keys) rs =
     (case safeMatch win (query_at query key) of
        Inl e \<Rightarrow> Inl e
      | Inr b \<Rightarrow> matching_reduce win query keys (obj_assign rs key b))"

definition matching :: "window option \<Rightarrow> mediaQuery \<Rightarrow> jsexn + mediaMatchResult" where
  "matching win query =
     (case query of
        QRecord q \<Rightarrow>
          (case matching_reduce win q (obj_keys q) [] of
             Inl e \<Rightarrow> Inl e
           | Inr rs \<Rightarrow> Inr (RRecord rs))
      | QString s \<Rightarrow>
          (case safeMatch win s of
             Inl e \<Rightarrow> Inl e
           | Inr b \<Rightarrow> Inr (RBool b)))"

text \<open>
  \<^verbatim>\<open>isEqual\<close>. \<^verbatim>\<open>a[key] === b[key]\<close> reads an own boolean of \<^verbatim>\<open>a\<close>; in \<^verbatim>\<open>b\<close> a
  missing key reads as \<^verbatim>\<open>undefined\<close> or as a member of \<^verbatim>\<open>Object.prototype\<close>, never
  as a boolean, which is the \<open>None\<close> of \<open>map_of\<close>.
\<close>

definition isEqual :: "mediaMatchResult \<Rightarrow> mediaMatchResult \<Rightarrow> bool" where
  "isEqual a b =
     (case (a, b) of
        (RRecord ra, RRecord rb) \<Rightarrow>
          (let aKeys = obj_keys ra; bKeys = obj_keys rb in
           if length aKeys \<noteq> length bKeys then False
           else if length aKeys = 0 then True
           else list_all (\<lambda>key. map_of ra key = map_of rb key) aKeys)
      | (RBool x, RBool y) \<Rightarrow> x = y
      | _ \<Rightarrow> False)"

section \<open>use-combine-events: the event chain combinator\<close>

text \<open>
  An entry of the argument list: a function, known by its identity, or an absent entry.
  \<^verbatim>\<open>null\<close> and \<^verbatim>\<open>undefined\<close> are two different members of a \<^verbatim>\<open>Set\<close>.
\<close>

datatype callback = CbUndefined | CbNull | CbFn nat

text \<open>
  A \<^verbatim>\<open>Set\<close> keeps its members in insertion order, each once: \<^verbatim>\<open>new Set(iterable)\<close>
  adds the elements one by one, and adding a member again changes nothing.
\<close>

definition set_add :: "'a list \<Rightarrow> 'a \<Rightarrow> 'a list" where
  "set_add s x = (if x \<in> set s then s else s @ [x])"

definition new_Set :: "'a list \<Rightarrow> 'a list" where
  "new_Set xs = foldl set_add [] xs"

text \<open>
  What a call \<^verbatim>\<open>callback(...args)\<close> does, as the promise around it sees it: a plain
  return or a thrown exception, or a returned promise that fulfils, rejects or never
  settles.
\<close>

datatype outcome = Returns | Throws jsexn | Resolves | Rejects jsexn | NeverSettles

text \<open>
  The state the handlers share: the rest-parameter array \<^verbatim>\<open>args\<close>, with its objects by
  value (a handler that mutates the event object returns the changed array), and
  whatever else the handlers see.
\<close>

record world =
  args :: "jsval list"

text \<open>\<^verbatim>\<open>args[0]\<close>: an index past the end reads \<^verbatim>\<open>undefined\<close>.\<close>

definition arg0 :: "jsval list \<Rightarrow> jsval" where
  "arg0 as = (case as of [] \<Rightarrow> JUndefined | a # _ \<Rightarrow> a)"

text \<open>
  The test \<^verbatim>\<open>hasOwnProperty.call(event, "defaultPrevented") && event.defaultPrevented\<close>.
\<close>

definition cancelled :: "jsval \<Rightarrow> jsexn + bool" where
  "cancelled event =
     (case hasOwn_defaultPrevented event of
        Inl e \<Rightarrow> Inl e
      | Inr has \<Rightarrow>
          if has then (case read_defaultPrevented event of
                         Inl e \<Rightarrow> Inl e
                       | Inr v \<Rightarrow> Inr (truthy v))
          else Inr False)"

text \<open>
  The steps of one invocation of the combined handler, in order: a handler is called, the
  promise around the call fulfils or rejects, a zero-delay timer is set.
\<close>

datatype step = Invoked nat | Fulfilled nat | RejectedWith nat jsexn | Deferred

text \<open>
  How the chain of one invocation ends: the queue runs empty; the cancellation test
  stops it; the promise around a call rejects, with no rejection handler attached; an
  exception leaves \<^verbatim>\<open>execute\<close>, either through the combined handler to its caller or
  in a timer task; or a handler's promise never settles.
\<close>

datatype chain_end =
  Completed | Cancelled | Failed jsexn | Raised jsexn | Uncaught jsexn | Stalled

text \<open>Where \<^verbatim>\<open>execute\<close> runs: called by the combined handler, or by a timer.\<close>

datatype caller = InCall | InTask

definition escapes :: "caller \<Rightarrow> jsexn \<Rightarrow> chain_end" where
  "escapes c e = (case c of InCall \<Rightarrow> Raised e | InTask \<Rightarrow> Uncaught e)"

definition after :: "step list \<Rightarrow> step list \<times> chain_end \<times> 'w \<Rightarrow> step list \<times> chain_end \<times> 'w" where
  "after evs r = (case r of (tr, en, w) \<Rightarrow> (evs @ tr, en, w))"

text \<open>
  \<^verbatim>\<open>execute\<close>. The queue is the \<^verbatim>\<open>Set\<close> \<^verbatim>\<open>uniqueCallbacks\<close>; its first member is
  taken and deleted. The recursive calls are the ones the timer makes.
\<close>

function execute ::
  "(nat \<Rightarrow> 'a world_scheme \<Rightarrow> outcome \<times> 'a world_scheme) \<Rightarrow> caller \<Rightarrow> callback list \<Rightarrow>
   'a world_scheme \<Rightarrow> step list \<times> chain_end \<times> 'a world_scheme" where
  "execute beh c [] w = ([], Completed, w)"
| "execute beh c (cb # rest) w =
     (case cb of
        CbFn h \<Rightarrow>
          (case cancelled (arg0 (args w)) of
             Inl e \<Rightarrow> ([], escapes c e, w)
           | Inr stop \<Rightarrow>
               if stop then ([], Cancelled, w)
               else
                 (case beh h w of
                    (Returns, w') \<Rightarrow>
                      after [Invoked h, Fulfilled h, Deferred]
                        (execute beh InTask (removeAll cb rest) w')
                  | (Resolves, w') \<Rightarrow>
                      after [Invoked h, Fulfilled h, Deferred]
                        (execute beh InTask (removeAll cb rest) w')
                  | (Throws e, w') \<Rightarrow> ([Invoked h, RejectedWith h e], Failed e, w')
                  | (Rejects e, w') \<Rightarrow> ([Invoked h, RejectedWith h e], Failed e, w')
                  | (NeverSettles, w') \<Rightarrow> ([Invoked h], Stalled, w')))
      | CbNull \<Rightarrow> after [Deferred] (execute beh InTask (removeAll cb rest) w)
      | CbUndefined \<Rightarrow> after [Deferred] (execute beh InTask (removeAll cb rest) w))"
  by pat_completeness auto
termination
  by (relation "measure (\<lambda>(beh, c, q, w). length q)")
     (auto simp: less_Suc_eq_le length_removeAll_less_eq)

text \<open>
  One invocation of the handler that \<^verbatim>\<open>combineEvents(...callbacks)\<close> returns: what the
  call gives back to its caller (the function has no \<^verbatim>\<open>return\<close> with a value, so
  \<^verbatim>\<open>undefined\<close>, unless an exception leaves the first, synchronous \<^verbatim>\<open>execute()\<close>),
  and what the chain does.
\<close>

record 'w invocation =
  returned :: "jsexn + jsval"
  trace :: "step list"
  ending :: chain_end
  final :: 'w

definition combineEvents ::
  "callback list \<Rightarrow> (nat \<Rightarrow> 'a world_scheme \<Rightarrow> outcome \<times> 'a world_scheme) \<Rightarrow>
   'a world_scheme \<Rightarrow> 'a world_scheme invocation" where
  "combineEvents callbacks beh w =
     (let uniqueCallbacks = new_Set callbacks in
      case execute beh InCall uniqueCallbacks w of
        (tr, en, w') \<Rightarrow>
          \<lparr> returned = (case en of Raised e \<Rightarrow> Inl e | _ \<Rightarrow> Inr JUndefined),
            trace = tr, ending = en, final = w' \<rparr>)"

text \<open>The handlers an invocation called, in order.\<close>

fun invoked :: "step list \<Rightarrow> nat list" where
  "invoked [] = []"
| "invoked (Invoked h # evs) = h # invoked evs"
| "invoked (ev # evs) = invoked evs"

text \<open>The functions among the entries, in order.\<close>

fun handlers :: "callback list \<Rightarrow> nat list" where
  "handlers [] = []"
| "handlers (CbFn h # cbs) = h # handlers cbs"
| "handlers (cb # cbs) = handlers cbs"

text \<open>
  The specification's queue: each element once, at its first occurrence.
  (\<open>remdups\<close> keeps the last occurrence, hence the two reversals.)
\<close>

definition first_occurrences :: "'a list \<Rightarrow> 'a list" where
  "first_occurrences xs = rev (remdups (rev xs))"

section \<open>The memoized wrappers\<close>

text \<open>
  Objects (arrays, functions) are known by identity; the render allocates identities from a
  counter. A dependency of a memo cell is an object identity or a primitive value.
\<close>

datatype dep = DRef nat | DPrim jsval

record 'v hooks =
  next_ref :: nat
  memo :: "(dep list \<times> 'v) option"

definition fresh :: "'v hooks \<Rightarrow> nat \<times> 'v hooks" where
  "fresh st = (next_ref st, st\<lparr>next_ref := Suc (next_ref st)\<rparr>)"

text \<open>
  Modelled from the spec: \<^verbatim>\<open>useMemo\<close> belongs to the component framework (React), not to
  this repository. It is the memoization primitive of section 9 that compares the
  dependency list it is given position by position with \<^verbatim>\<open>Object.is\<close>: two
  references are equal when they are the same object, whatever the objects contain. The
  cached value is returned when all positions are equal, otherwise \<^verbatim>\<open>create\<close> runs and
  its value is stored with the new dependencies.
\<close>

definition object_is :: "dep \<Rightarrow> dep \<Rightarrow> bool" where
  "object_is a b = (a = b)"

fun areHookInputsEqual :: "dep list \<Rightarrow> dep list \<Rightarrow> bool" where
  "areHookInputsEqual (a # as) (b # bs) = (object_is a b \<and> areHookInputsEqual as bs)"
| "areHookInputsEqual as bs = True"

definition useMemo ::
  "('v hooks \<Rightarrow> 'v \<times> 'v hooks) \<Rightarrow> dep list \<Rightarrow> 'v hooks \<Rightarrow> 'v \<times> 'v hooks" where
  "useMemo create deps st =
     (case memo st of
        Some (prevDeps, v) \<Rightarrow>
          if areHookInputsEqual deps prevDeps then (v, st)
          else (case create st of (v', st') \<Rightarrow> (v', st'\<lparr>memo := Some (deps, v')\<rparr>))
      | None \<Rightarrow> (case create st of (v', st') \<Rightarrow> (v', st'\<lparr>memo := Some (deps, v')\<rparr>)))"

text \<open>
  The function object that \<^verbatim>\<open>combineEvents(...callbacks)\<close> or \<^verbatim>\<open>combineRefs(...refs)\<close>
  returns: a new closure at every call, over the entries it was given.
\<close>

record 'c closure =
  ident :: nat
  captured :: "'c list"

definition new_closure :: "'c list \<Rightarrow> 'c closure hooks \<Rightarrow> 'c closure \<times> 'c closure hooks" where
  "new_closure entries st =
     (case fresh st of (f, st') \<Rightarrow> (\<lparr>ident = f, captured = entries\<rparr>, st'))"

text \<open>
  \<^verbatim>\<open>useCombineEvents(...callbacks)\<close>: the rest parameter \<^verbatim>\<open>callbacks\<close> is a new array at
  every call, and the dependency list is \<^verbatim>\<open>[callbacks]\<close>, the array itself.
\<close>

definition useCombineEvents ::
  "callback list \<Rightarrow> callback closure hooks \<Rightarrow> callback closure \<times> callback closure hooks" where
  "useCombineEvents callbacks st =
     (case fresh st of (arr, st1) \<Rightarrow> useMemo (new_closure callbacks) [DRef arr] st1)"

text \<open>
  \<^verbatim>\<open>useCombineRefs(...refs)\<close>, with the dependency list \<^verbatim>\<open>[refs]\<close>. A ref is a callback
  ref or a ref object, known by identity, or absent.
\<close>

datatype ref = RefCallback nat | RefObject nat | RefNull

definition useCombineRefs ::
  "ref list \<Rightarrow> ref closure hooks \<Rightarrow> ref closure \<times> ref closure hooks" where
  "useCombineRefs refs st =
     (case fresh st of (arr, st1) \<Rightarrow> useMemo (new_closure refs) [DRef arr] st1)"

text \<open>The state of a component before its first render.\<close>

definition mount :: "nat \<Rightarrow> 'v hooks" where
  "mount n = \<lparr>next_ref = n, memo = None\<rparr>"

section \<open>Inputs of the scenarios\<close>

text \<open>The boolean that \<^verbatim>\<open>safeMatch\<close> returns.\<close>

definition match_of :: "window option \<Rightarrow> string \<Rightarrow> bool" where
  "match_of win q = (case safeMatch win q of Inr b \<Rightarrow> b | Inl e \<Rightarrow> False)"

text \<open>
  A display that matches the condition \<^verbatim>\<open>wide\<close>, does not match \<^verbatim>\<open>narrow\<close>, and throws
  on anything else; a window that has it as its own \<^verbatim>\<open>matchMedia\<close>; a window without
  \<^verbatim>\<open>matchMedia\<close>; a window that only inherits it.
\<close>

definition wide_display :: "string \<Rightarrow> jsexn + bool" where
  "wide_display q =
     (if q = ''wide'' then Inr True
      else if q = ''narrow'' then Inr False
      else Inl (Thrown ''SyntaxError''))"

definition browser :: window where
  "browser = \<lparr>own_matchMedia = Some (MatchMedia wide_display), inherited_matchMedia = None\<rparr>"

definition headless :: window where
  "headless = \<lparr>own_matchMedia = None, inherited_matchMedia = None\<rparr>"

definition inheriting_window :: window where
  "inheriting_window =
     \<lparr>own_matchMedia = None, inherited_matchMedia = Some (MatchMedia wide_display)\<rparr>"

text \<open>
  Event objects: \<^verbatim>\<open>{}\<close>; an object whose own \<^verbatim>\<open>defaultPrevented\<close> is \<^verbatim>\<open>true\<close>; an
  object that has a true \<^verbatim>\<open>defaultPrevented\<close> only through its prototype.
\<close>

definition plain_event :: jsval where
  "plain_event = JObj [] []"


definition inheriting_event :: jsval where
  "inheriting_event = JObj [] [(''defaultPrevented'', JBool True)]"


text \<open>
  Handlers. \<open>logs_123\<close>: handlers 1 and 3 log and return, handler 2 returns a promise that
  fulfils after a network call. \<open>first_rejects\<close>, \<open>first_throws\<close>: handler 1 returns a
  promise that rejects, or throws; the others return. \<open>second_throws\<close>: handler 2 throws. \<open>first_prevents\<close>: handler 1 sets
  \<^verbatim>\<open>defaultPrevented\<close> on its argument and returns; the others return.
\<close>

definition logs_123 :: "nat \<Rightarrow> world \<Rightarrow> outcome \<times> world" where
  "logs_123 h w = (if h = 2 then (Resolves, w) else (Returns, w))"

definition first_rejects :: "nat \<Rightarrow> world \<Rightarrow> outcome \<times> world" where
  "first_rejects h w = (if h = 1 then (Rejects (Thrown ''boom''), w) else (Returns, w))"

definition first_throws :: "nat \<Rightarrow> world \<Rightarrow> outcome \<times> world" where
  "first_throws h w = (if h = 1 then (Throws (Thrown ''boom''), w) else (Returns, w))"

definition second_throws :: "nat \<Rightarrow> world \<Rightarrow> outcome \<times> world" where
  "second_throws h w = (if h = 2 then (Throws (Thrown ''boom''), w) else (Returns, w))"





text \<open>
  The first argument has a true \<^verbatim>\<open>defaultPrevented\<close> that is inherited and not its own.
\<close>

definition inherits_flag_only :: "jsval \<Rightarrow> bool" where
  "inherits_flag_only ev =
     (case ev of
        JObj own inherited \<Rightarrow>
          ''defaultPrevented'' \<notin> fst ` set own \<and>
          (case map_of inherited ''defaultPrevented'' of Some v \<Rightarrow> truthy v | None \<Rightarrow> False)
      | _ \<Rightarrow> False)"

section \<open>Properties of the queue\<close>

lemma set_new_Set_aux: "set (foldl set_add acc xs) = set acc \<union> set xs"
  by (induction xs arbitrary: acc) (auto simp: set_add_def)

lemma new_Set_snoc: "new_Set (xs @ [x]) = set_add (new_Set xs) x"
  by (simp add: new_Set_def)

lemma set_new_Set: "set (new_Set xs) = set xs"
  by (simp add: new_Set_def set_new_Set_aux)

lemma new_Set_first_occurrences: "new_Set xs = first_occurrences xs"
proof (induction xs rule: rev_induct)
  case Nil
  show ?case by (simp add: new_Set_def first_occurrences_def)
next
  case (snoc x xs)
  then show ?case
    by (simp add: new_Set_snoc set_add_def set_new_Set first_occurrences_def)
qed

lemma distinct_new_Set: "distinct (new_Set xs)"
  by (simp add: new_Set_first_occurrences first_occurrences_def)

lemma set_handlers: "set (handlers cbs) = {h. CbFn h \<in> set cbs}"
  by (induction cbs rule: handlers.induct) auto




section \<open>Properties of \<open>execute\<close>\<close>

lemma after_simps [simp]: "after evs (tr, en, w) = (evs @ tr, en, w)"
  by (simp add: after_def)

lemma after_after: "after xs (after ys r) = after (xs @ ys) r"
  by (cases r) simp

lemma execute_Cons_distinct:
  assumes "cb \<notin> set rest"
  shows "execute beh c (cb # rest) w =
     (case cb of
        CbFn h \<Rightarrow>
          (case cancelled (arg0 (args w)) of
             Inl e \<Rightarrow> ([], escapes c e, w)
           | Inr stop \<Rightarrow>
               if stop then ([], Cancelled, w)
               else
                 (case beh h w of
                    (Returns, w') \<Rightarrow>
                      after [Invoked h, Fulfilled h, Deferred] (execute beh InTask rest w')
                  | (Resolves, w') \<Rightarrow>
                      after [Invoked h, Fulfilled h, Deferred] (execute beh InTask rest w')
                  | (Throws e, w') \<Rightarrow> ([Invoked h, RejectedWith h e], Failed e, w')
                  | (Rejects e, w') \<Rightarrow> ([Invoked h, RejectedWith h e], Failed e, w')
                  | (NeverSettles, w') \<Rightarrow> ([Invoked h], Stalled, w')))
      | CbNull \<Rightarrow> after [Deferred] (execute beh InTask rest w)
      | CbUndefined \<Rightarrow> after [Deferred] (execute beh InTask rest w))"
proof -
  have eq: "removeAll cb rest = rest" using assms by (rule removeAll_id)
  show ?thesis unfolding execute.simps eq by (rule refl)
qed

lemma execute_append:
  "distinct (pre @ rest) \<Longrightarrow> execute beh c pre w = (tr1, Completed, w1) \<Longrightarrow>
   execute beh c (pre @ rest) w =
     after tr1 (execute beh (if pre = [] then c else InTask) rest w1)"
proof (induction pre arbitrary: c w tr1)
  case Nil
  then show ?case by (cases "execute beh c rest w") simp
next
  case (Cons cb pre)
  from Cons.prems(1) have nin: "cb \<notin> set (pre @ rest)" "cb \<notin> set pre" and d: "distinct (pre @ rest)"
    by auto
  have step: "execute beh c ((cb # pre) @ rest) w = after (evs @ tr2) (execute beh InTask rest w1)"
    if a: "execute beh c ((cb # pre) @ rest) w = after evs (execute beh InTask (pre @ rest) u)"
      and b: "execute beh InTask pre u = (tr2, Completed, w1)" for evs tr2 u
  proof -
    have "execute beh InTask (pre @ rest) u = after tr2 (execute beh InTask rest w1)"
      using Cons.IH[OF d b] by simp
    with a show ?thesis by (simp add: after_after)
  qed
  show ?case
  proof (cases cb)
    case CbUndefined
    obtain tr2 en2 w2 where r: "execute beh InTask pre w = (tr2, en2, w2)"
      by (cases "execute beh InTask pre w") auto
    with Cons.prems(2) nin CbUndefined have e: "en2 = Completed" "w2 = w1" "tr1 = [Deferred] @ tr2"
      by (auto simp: execute_Cons_distinct)
    have "execute beh c ((cb # pre) @ rest) w = after [Deferred] (execute beh InTask (pre @ rest) w)"
      using nin CbUndefined by (simp add: execute_Cons_distinct)
    from step[OF this] r e show ?thesis by simp
  next
    case CbNull
    obtain tr2 en2 w2 where r: "execute beh InTask pre w = (tr2, en2, w2)"
      by (cases "execute beh InTask pre w") auto
    with Cons.prems(2) nin CbNull have e: "en2 = Completed" "w2 = w1" "tr1 = [Deferred] @ tr2"
      by (auto simp: execute_Cons_distinct)
    have "execute beh c ((cb # pre) @ rest) w = after [Deferred] (execute beh InTask (pre @ rest) w)"
      using nin CbNull by (simp add: execute_Cons_distinct)
    from step[OF this] r e show ?thesis by simp
  next
    case (CbFn h)
    obtain out u where b: "beh h w = (out, u)" by (cases "beh h w") auto
    obtain tr2 en2 w2 where r: "execute beh InTask pre u = (tr2, en2, w2)"
      by (cases "execute beh InTask pre u") auto
    from Cons.prems(2) nin CbFn b r
    have e: "cancelled (arg0 (args w)) = Inr False" "out = Returns \<or> out = Resolves"
      "en2 = Completed" "w2 = w1" "tr1 = [Invoked h, Fulfilled h, Deferred] @ tr2"
      by (auto simp: execute_Cons_distinct escapes_def
          split: sum.splits if_splits outcome.splits caller.splits)
    have "execute beh c ((cb # pre) @ rest) w =
            after [Invoked h, Fulfilled h, Deferred] (execute beh InTask (pre @ rest) u)"
      using nin CbFn b e(1,2) by (auto simp: execute_Cons_distinct)
    from step[OF this] r e show ?thesis by simp
  qed
qed

lemma execute_completed:
  "distinct q \<Longrightarrow> execute beh c q w = (tr, Completed, w') \<Longrightarrow>
   filter (\<lambda>ev. ev \<noteq> Deferred) tr = concat (map (\<lambda>h. [Invoked h, Fulfilled h]) (handlers q))"
proof (induction q arbitrary: c w tr w')
  case Nil
  then show ?case by simp
next
  case (Cons cb rest)
  from Cons.prems have nin: "cb \<notin> set rest" and d: "distinct rest" by auto
  obtain tr' en' w'' where r: "execute beh InTask rest (snd (beh (case cb of CbFn h \<Rightarrow> h | _ \<Rightarrow> 0) w)) = (tr', en', w'')"
    by (cases "execute beh InTask rest (snd (beh (case cb of CbFn h \<Rightarrow> h | _ \<Rightarrow> 0) w))") auto
  obtain tr2 en2 w2 where r2: "execute beh InTask rest w = (tr2, en2, w2)"
    by (cases "execute beh InTask rest w") auto
  show ?case
  proof (cases cb)
    case CbUndefined
    with Cons.prems(2) nin r2 have "en2 = Completed" "tr = Deferred # tr2"
      by (auto simp: execute_Cons_distinct)
    with Cons.IH[OF d] r2 CbUndefined show ?thesis by auto
  next
    case CbNull
    with Cons.prems(2) nin r2 have "en2 = Completed" "tr = Deferred # tr2"
      by (auto simp: execute_Cons_distinct)
    with Cons.IH[OF d] r2 CbNull show ?thesis by auto
  next
    case (CbFn h)
    with r have r': "execute beh InTask rest (snd (beh h w)) = (tr', en', w'')" by simp
    from Cons.prems(2) nin CbFn r' have "en' = Completed \<and> tr = [Invoked h, Fulfilled h, Deferred] @ tr'"
      by (auto simp: execute_Cons_distinct escapes_def split: sum.splits if_splits prod.splits outcome.splits caller.splits)
    with Cons.IH[OF d] r' CbFn show ?thesis by auto
  qed
qed

lemma execute_invariant:
  assumes P: "P w"
    and ok: "\<And>w. P w \<Longrightarrow> cancelled (arg0 (args w)) = Inr False"
    and step: "\<And>h w. CbFn h \<in> set q \<Longrightarrow> P w \<Longrightarrow>
                 (fst (beh h w) = Returns \<or> fst (beh h w) = Resolves) \<and> P (snd (beh h w))"
  shows "fst (snd (execute beh c q w)) = Completed \<and> P (snd (snd (execute beh c q w)))"
  using P step
proof (induction beh c q w rule: execute.induct)
  case (1 beh c w)
  then show ?case by simp
next
  case (2 beh c cb rest w)
  show ?case
  proof (cases cb)
    case CbUndefined
    have "fst (snd (execute beh InTask (removeAll cb rest) w)) = Completed \<and> P (snd (snd (execute beh InTask (removeAll cb rest) w)))"
      using "2.IH"(1)[OF CbUndefined "2.prems"(1)] "2.prems"(2) by auto
    then show ?thesis using CbUndefined by (auto simp: after_def split: prod.splits)
  next
    case CbNull
    have "fst (snd (execute beh InTask (removeAll cb rest) w)) = Completed \<and> P (snd (snd (execute beh InTask (removeAll cb rest) w)))"
      using "2.IH"(2)[OF CbNull "2.prems"(1)] "2.prems"(2) by auto
    then show ?thesis using CbNull by (auto simp: after_def split: prod.splits)
  next
    case (CbFn h)
    have c: "cancelled (arg0 (args w)) = Inr False" using ok "2.prems"(1) by simp
    have s: "(fst (beh h w) = Returns \<or> fst (beh h w) = Resolves) \<and> P (snd (beh h w))"
      using "2.prems"(2)[of h w] CbFn "2.prems"(1) by simp
    obtain out w1 where b: "beh h w = (out, w1)" by (cases "beh h w") auto
    with s have o: "out = Returns \<or> out = Resolves" and p1: "P w1" by auto
    have "fst (snd (execute beh InTask (removeAll cb rest) w1)) = Completed \<and> P (snd (snd (execute beh InTask (removeAll cb rest) w1)))"
    proof (cases "out = Returns")
      case True
      show ?thesis
        using "2.IH"(3)[OF CbFn c _ b[symmetric] True p1] "2.prems"(2) by auto
    next
      case False
      with o have R: "out = Resolves" by simp
      show ?thesis
        using "2.IH"(4)[OF CbFn c _ b[symmetric] R p1] "2.prems"(2) by auto
    qed
    then show ?thesis using CbFn c b o by (auto simp: after_def split: prod.splits)
  qed
qed


lemma execute_rejected:
  "execute beh c q w = (tr, en, w') \<Longrightarrow> RejectedWith h e \<in> set tr \<Longrightarrow>
   en = Failed e \<and> (\<exists>pre. tr = pre @ [Invoked h, RejectedWith h e])"
proof (induction "length q" arbitrary: q c w tr en w' rule: less_induct)
  case less
  show ?case
  proof (cases q)
    case Nil
    with less.prems show ?thesis by simp
  next
    case (Cons cb rest)
    define q' where "q' = removeAll cb rest"
    have len: "length q' < length q"
      unfolding q'_def Cons by (simp add: less_Suc_eq_le length_removeAll_less_eq)
    have IH: "\<And>u tr1 en1 w1. execute beh InTask q' u = (tr1, en1, w1) \<Longrightarrow>
                 RejectedWith h e \<in> set tr1 \<Longrightarrow>
                 en1 = Failed e \<and> (\<exists>pre. tr1 = pre @ [Invoked h, RejectedWith h e])"
      using less.hyps[OF len] by blast
    have absent: ?thesis if ex: "execute beh c q w = after [Deferred] (execute beh InTask q' w)"
    proof -
      obtain tr1 en1 w1 where r: "execute beh InTask q' w = (tr1, en1, w1)"
        by (cases "execute beh InTask q' w") auto
      with ex less.prems have eq: "tr = Deferred # tr1" "en = en1" by auto
      with less.prems(2) have "RejectedWith h e \<in> set tr1" by auto
      from IH[OF r this] eq show ?thesis by auto
    qed
    show ?thesis
    proof (cases cb)
      case CbUndefined
      then show ?thesis using absent by (simp add: Cons q'_def)
    next
      case CbNull
      then show ?thesis using absent by (simp add: Cons q'_def)
    next
      case (CbFn g)
      obtain out u where b: "beh g w = (out, u)" by (cases "beh g w") auto
      obtain tr1 en1 w1 where r: "execute beh InTask q' u = (tr1, en1, w1)"
        by (cases "execute beh InTask q' u") auto
      show ?thesis
      proof (cases "out = Returns \<or> out = Resolves")
        case True
        with less.prems CbFn b r have eq: "tr = [Invoked g, Fulfilled g, Deferred] @ tr1" "en = en1"
          by (auto simp: Cons q'_def split: sum.splits if_splits)
        with less.prems(2) have "RejectedWith h e \<in> set tr1" by auto
        from IH[OF r this] eq show ?thesis by auto
      next
        case False
        with less.prems CbFn b show ?thesis
          by (cases out) (auto simp: Cons split: sum.splits if_splits)
      qed
    qed
  qed
qed

lemma execute_failed:
  "execute beh c q w = (tr, Failed e, w') \<Longrightarrow> \<exists>h. RejectedWith h e \<in> set tr"
proof (induction "length q" arbitrary: q c w tr w' rule: less_induct)
  case less
  show ?case
  proof (cases q)
    case Nil
    with less.prems show ?thesis by simp
  next
    case (Cons cb rest)
    define q' where "q' = removeAll cb rest"
    have len: "length q' < length q"
      unfolding q'_def Cons by (simp add: less_Suc_eq_le length_removeAll_less_eq)
    have IH: "\<And>u tr1 w1. execute beh InTask q' u = (tr1, Failed e, w1) \<Longrightarrow>
                 \<exists>h. RejectedWith h e \<in> set tr1"
      using less.hyps[OF len] by blast
    show ?thesis
    proof (cases cb)
      case CbUndefined
      obtain tr1 en1 w1 where r: "execute beh InTask q' w = (tr1, en1, w1)"
        by (cases "execute beh InTask q' w") auto
      with less.prems CbUndefined have "tr = Deferred # tr1" "en1 = Failed e"
        by (auto simp: Cons q'_def)
      with IH r show ?thesis by auto
    next
      case CbNull
      obtain tr1 en1 w1 where r: "execute beh InTask q' w = (tr1, en1, w1)"
        by (cases "execute beh InTask q' w") auto
      with less.prems CbNull have "tr = Deferred # tr1" "en1 = Failed e"
        by (auto simp: Cons q'_def)
      with IH r show ?thesis by auto
    next
      case (CbFn g)
      obtain out u where b: "beh g w = (out, u)" by (cases "beh g w") auto
      obtain tr1 en1 w1 where r: "execute beh InTask q' u = (tr1, en1, w1)"
        by (cases "execute beh InTask q' u") auto
      show ?thesis
      proof (cases "out = Returns \<or> out = Resolves")
        case True
        with less.prems CbFn b r have "tr = [Invoked g, Fulfilled g, Deferred] @ tr1" "en1 = Failed e"
          by (auto simp: Cons q'_def escapes_def split: sum.splits if_splits caller.splits)
        with IH r show ?thesis by auto
      next
        case False
        with less.prems CbFn b show ?thesis
          by (cases out) (auto simp: Cons escapes_def split: sum.splits if_splits caller.splits)
      qed
    qed
  qed
qed

lemma execute_absent:
  "\<forall>cb \<in> set q. cb = CbNull \<or> cb = CbUndefined \<Longrightarrow> distinct q \<Longrightarrow>
   execute beh c q w = (replicate (length q) Deferred, Completed, w)"
proof (induction q arbitrary: c)
  case Nil
  show ?case by simp
next
  case (Cons cb rest)
  then have "cb \<notin> set rest" "cb = CbNull \<or> cb = CbUndefined" by auto
  with Cons show ?case by (auto simp: execute_Cons_distinct)
qed

lemma absent_short:
  assumes "\<forall>cb \<in> set q. cb = CbNull \<or> cb = CbUndefined" "distinct q"
  shows "length q \<le> 2"
proof -
  have "set q \<subseteq> {CbNull, CbUndefined}" using assms(1) by auto
  then have "card (set q) \<le> card {CbNull, CbUndefined}" by (intro card_mono) auto
  with assms(2) show ?thesis by (simp add: distinct_card)
qed

section \<open>Properties of the condition evaluator\<close>

lemma isEqual_refl: "isEqual r r"
  by (cases r) (auto simp: isEqual_def Let_def list_all_iff)

lemma isEqual_records:
  assumes "distinct (obj_keys a)" "distinct (obj_keys b)"
  shows "isEqual (RRecord a) (RRecord b) \<longleftrightarrow>
           length a = length b \<and> set (obj_keys a) = set (obj_keys b) \<and>
           (\<forall>k \<in> set (obj_keys a). map_of a k = map_of b k)"
proof
  assume eq: "isEqual (RRecord a) (RRecord b)"
  then have len: "length a = length b"
    by (auto simp: isEqual_def Let_def obj_keys_def split: if_splits)
  from eq have all: "\<forall>k \<in> set (obj_keys a). map_of a k = map_of b k"
    by (auto simp: isEqual_def Let_def list_all_iff obj_keys_def split: if_splits)
  have sub: "set (obj_keys a) \<subseteq> set (obj_keys b)"
  proof
    fix k assume k: "k \<in> set (obj_keys a)"
    then have "map_of a k \<noteq> None"
      by (simp add: map_of_eq_None_iff obj_keys_def)
    then obtain v where "map_of a k = Some v" by auto
    with all k have "map_of b k = Some v" by auto
    then show "k \<in> set (obj_keys b)"
      by (auto simp: obj_keys_def dest: map_of_SomeD intro: rev_image_eqI)
  qed
  have "card (set (obj_keys a)) = length (obj_keys a)" "card (set (obj_keys b)) = length (obj_keys b)"
    using assms by (simp_all add: distinct_card)
  with len have "card (set (obj_keys a)) = card (set (obj_keys b))"
    by (simp add: obj_keys_def)
  with sub have "set (obj_keys a) = set (obj_keys b)"
    by (intro card_subset_eq) auto
  with len all show "length a = length b \<and> set (obj_keys a) = set (obj_keys b) \<and>
           (\<forall>k \<in> set (obj_keys a). map_of a k = map_of b k)" by simp
next
  assume h: "length a = length b \<and> set (obj_keys a) = set (obj_keys b) \<and>
           (\<forall>k \<in> set (obj_keys a). map_of a k = map_of b k)"
  then have "list_all (\<lambda>key. map_of a key = map_of b key) (obj_keys a)"
    by (simp add: list_all_iff)
  moreover from h have "length (obj_keys a) = length (obj_keys b)"
    by (simp add: obj_keys_def)
  ultimately show "isEqual (RRecord a) (RRecord b)"
    by (simp add: isEqual_def Let_def)
qed

lemma same_map_iff:
  "map_of a = map_of b \<longleftrightarrow>
     set (obj_keys a) = set (obj_keys b) \<and> (\<forall>k \<in> set (obj_keys a). map_of a k = map_of b k)"
proof
  assume e: "map_of a = map_of b"
  then have "dom (map_of a) = dom (map_of b)" by simp
  then have "set (obj_keys a) = set (obj_keys b)" by (simp add: dom_map_of_conv_image_fst obj_keys_def)
  with e show "set (obj_keys a) = set (obj_keys b) \<and> (\<forall>k \<in> set (obj_keys a). map_of a k = map_of b k)" by simp
next
  assume h: "set (obj_keys a) = set (obj_keys b) \<and> (\<forall>k \<in> set (obj_keys a). map_of a k = map_of b k)"
  show "map_of a = map_of b"
  proof
    fix k
    show "map_of a k = map_of b k"
    proof (cases "k \<in> set (obj_keys a)")
      case True with h show ?thesis by simp
    next
      case False
      with h have "k \<notin> fst ` set a" "k \<notin> fst ` set b" by (auto simp: obj_keys_def)
      then have "map_of a k = None" "map_of b k = None"
        by (simp_all add: map_of_eq_None_iff)
      then show ?thesis by simp
    qed
  qed
qed

lemma safeMatch_Inr: "\<exists>b. safeMatch win q = Inr b"
  by (auto simp: safeMatch_def split: sum.splits)

lemma safeMatch_match_of: "safeMatch win q = Inr (match_of win q)"
  using safeMatch_Inr[of win q] by (auto simp: match_of_def)

lemma matching_reduce_keys:
  "''__proto__'' \<notin> set keys \<Longrightarrow>
   \<exists>rs'. matching_reduce win query keys rs = Inr rs' \<and>
     fst ` set rs' = fst ` set rs \<union> set keys \<and>
     (\<forall>k. map_of rs' k = (if k \<in> set keys then Some (match_of win (query_at query k)) else map_of rs k)) \<and>
     (distinct (map fst rs) \<longrightarrow> distinct (map fst rs'))"
proof (induction keys arbitrary: rs)
  case Nil
  then show ?case by simp
next
  case (Cons key keys)
  from Cons.prems have k: "key \<noteq> ''__proto__''" "''__proto__'' \<notin> set keys" by auto
  let ?rs1 = "AList.update key (match_of win (query_at query key)) rs"
  from Cons.IH[OF k(2), of ?rs1] obtain rs' where
    r: "matching_reduce win query keys ?rs1 = Inr rs'"
    and d: "fst ` set rs' = fst ` set ?rs1 \<union> set keys"
    and m: "\<forall>k. map_of rs' k = (if k \<in> set keys then Some (match_of win (query_at query k)) else map_of ?rs1 k)"
    and di: "distinct (map fst ?rs1) \<longrightarrow> distinct (map fst rs')"
    by blast
  have "matching_reduce win query (key # keys) rs = Inr rs'"
    using r k by (simp add: safeMatch_match_of obj_assign_def)
  moreover have "fst ` set rs' = fst ` set rs \<union> set (key # keys)"
    using d by (auto simp: dom_update)
  moreover have "\<forall>k. map_of rs' k = (if k \<in> set (key # keys) then Some (match_of win (query_at query k)) else map_of rs k)"
    using m by (auto simp: update_conv')
  moreover have "distinct (map fst rs) \<longrightarrow> distinct (map fst rs')"
    using di by (simp add: distinct_update)
  ultimately show ?case by blast
qed

section \<open>The combined handler, through \<open>execute\<close>\<close>

lemma trace_combineEvents:
  "trace (combineEvents cbs beh w) = fst (execute beh InCall (new_Set cbs) w)"
  by (simp add: combineEvents_def Let_def split: prod.splits)

lemma ending_combineEvents:
  "ending (combineEvents cbs beh w) = fst (snd (execute beh InCall (new_Set cbs) w))"
  by (simp add: combineEvents_def Let_def split: prod.splits)

lemma final_combineEvents:
  "final (combineEvents cbs beh w) = snd (snd (execute beh InCall (new_Set cbs) w))"
  by (simp add: combineEvents_def Let_def split: prod.splits)

lemma returned_combineEvents:
  "returned (combineEvents cbs beh w) =
     (case ending (combineEvents cbs beh w) of Raised e \<Rightarrow> Inl e | _ \<Rightarrow> Inr JUndefined)"
  by (simp add: combineEvents_def Let_def split: prod.splits)

lemma invoked_append: "invoked (xs @ ys) = invoked xs @ invoked ys"
  by (induction xs rule: invoked.induct) auto

lemma invoked_filter: "invoked (filter (\<lambda>ev. ev \<noteq> Deferred) tr) = invoked tr"
  by (induction tr rule: invoked.induct) auto

lemma invoked_pairs: "invoked (concat (map (\<lambda>h. [Invoked h, Fulfilled h]) hs)) = hs"
  by (induction hs) auto

lemma execute_invoked_subset:
  "distinct q \<Longrightarrow> set (invoked (fst (execute beh c q w))) \<subseteq> set (handlers q)"
proof (induction q arbitrary: c w)
  case Nil
  show ?case by simp
next
  case (Cons cb rest)
  then have nin: "cb \<notin> set rest" and d: "distinct rest" by auto
  have IH: "\<And>u. set (invoked (fst (execute beh InTask rest u))) \<subseteq> set (handlers rest)"
    using Cons.IH[OF d] by blast
  show ?case
  proof (cases cb)
    case CbUndefined
    with IH[of w] nin show ?thesis
      by (cases "execute beh InTask rest w") (auto simp: execute_Cons_distinct)
  next
    case CbNull
    with IH[of w] nin show ?thesis
      by (cases "execute beh InTask rest w") (auto simp: execute_Cons_distinct)
  next
    case (CbFn h)
    obtain out u where b: "beh h w = (out, u)" by (cases "beh h w") auto
    with IH[of u] nin CbFn show ?thesis
      by (cases "execute beh InTask rest u"; cases out)
         (auto simp: execute_Cons_distinct split: sum.splits)
  qed
qed

lemma completed_run:
  assumes "ending (combineEvents cbs beh w) = Completed"
  shows "filter (\<lambda>ev. ev \<noteq> Deferred) (trace (combineEvents cbs beh w)) =
           concat (map (\<lambda>h. [Invoked h, Fulfilled h]) (handlers (first_occurrences cbs)))"
proof -
  obtain tr en w' where r: "execute beh InCall (new_Set cbs) w = (tr, en, w')"
    by (cases "execute beh InCall (new_Set cbs) w") auto
  with assms have "en = Completed" by (simp add: ending_combineEvents)
  with r execute_completed[OF distinct_new_Set, of beh InCall cbs w tr w']
  show ?thesis by (simp add: trace_combineEvents new_Set_first_occurrences)
qed

lemma completed_invoked:
  assumes "ending (combineEvents cbs beh w) = Completed"
  shows "invoked (trace (combineEvents cbs beh w)) = handlers (first_occurrences cbs)"
proof -
  have "invoked (filter (\<lambda>ev. ev \<noteq> Deferred) (trace (combineEvents cbs beh w))) =
          handlers (first_occurrences cbs)"
    by (simp only: completed_run[OF assms] invoked_pairs)
  then show ?thesis by (simp only: invoked_filter)
qed

lemma uncancelled_run:
  assumes P: "P w"
    and ok: "\<And>v. P v \<Longrightarrow> cancelled (arg0 (args v)) = Inr False"
    and step: "\<And>h v. CbFn h \<in> set cbs \<Longrightarrow> P v \<Longrightarrow>
                 (fst (beh h v) = Returns \<or> fst (beh h v) = Resolves) \<and> P (snd (beh h v))"
  shows "ending (combineEvents cbs beh w) = Completed \<and> P (final (combineEvents cbs beh w))"
proof -
  have "fst (snd (execute beh InCall (new_Set cbs) w)) = Completed \<and>
        P (snd (snd (execute beh InCall (new_Set cbs) w)))"
    by (rule execute_invariant[where P = P, OF P ok]) (use step in \<open>auto simp: set_new_Set\<close>)
  then show ?thesis by (simp add: ending_combineEvents final_combineEvents)
qed

section \<open>The claims\<close>

subsection \<open>C1\<close>

text \<open>
  Claim C1, as amended. The handler that \<^verbatim>\<open>combineEvents\<close> returns has no promise-like
  completion: its call returns \<^verbatim>\<open>undefined\<close>. When the entries before an entry \<open>h\<close> of the
  queue have run to completion, the cancellation test lets \<open>h\<close> run, and \<open>h\<close> throws \<open>e\<close>
  or returns a promise that rejects with \<open>e\<close>, then the promise that \<^verbatim>\<open>execute\<close> wrapped
  around the call rejects with that same \<open>e\<close> and nothing handles it; this is the last
  event of the invocation, so no entry after \<open>h\<close> is invoked.
\<close>

theorem combineEvents_fail_fast:
  assumes queue: "new_Set cbs = pre @ CbFn h # post"
    and before: "execute beh InCall pre w = (tr1, Completed, w1)"
    and go: "cancelled (arg0 (args w1)) = Inr False"
    and fails: "fst (beh h w1) = Throws e \<or> fst (beh h w1) = Rejects e"
  shows "trace (combineEvents cbs beh w) = tr1 @ [Invoked h, RejectedWith h e] \<and>
         ending (combineEvents cbs beh w) = Failed e \<and>
         returned (combineEvents cbs beh w) = Inr JUndefined \<and>
         (\<forall>g \<in> set (handlers post). g \<notin> set (invoked (trace (combineEvents cbs beh w))))"
proof -
  have d: "distinct (pre @ CbFn h # post)"
    using distinct_new_Set[of cbs] queue by simp
  then have nin: "CbFn h \<notin> set post" and dpre: "distinct pre" by auto
  obtain out w2 where b: "beh h w1 = (out, w2)" by (cases "beh h w1") auto
  with fails have out: "out = Throws e \<or> out = Rejects e" by simp
  have one: "execute beh c (CbFn h # post) w1 = ([Invoked h, RejectedWith h e], Failed e, w2)" for c
    using nin go b out by (auto simp: execute_Cons_distinct)
  have run: "execute beh InCall (new_Set cbs) w = (tr1 @ [Invoked h, RejectedWith h e], Failed e, w2)"
    unfolding queue execute_append[OF d before] one by simp
  have tr: "trace (combineEvents cbs beh w) = tr1 @ [Invoked h, RejectedWith h e]"
    and en: "ending (combineEvents cbs beh w) = Failed e"
    using run by (simp_all add: trace_combineEvents ending_combineEvents)
  have ret: "returned (combineEvents cbs beh w) = Inr JUndefined"
    by (simp add: returned_combineEvents en)
  have "set (invoked tr1) \<subseteq> set (handlers pre)"
    using execute_invoked_subset[OF dpre, of beh InCall w] before by simp
  moreover have "set (handlers pre) \<inter> set (handlers post) = {}" "h \<notin> set (handlers post)"
    using d by (auto simp: set_handlers)
  ultimately have "\<forall>g \<in> set (handlers post). g \<notin> set (invoked (tr1 @ [Invoked h, RejectedWith h e]))"
    by (auto simp: invoked_append)
  with tr en ret show ?thesis by simp
qed

text \<open>
  The theorem at \<^verbatim>\<open>combineEvents(h1, h2, h3)\<close> called with \<^verbatim>\<open>{}\<close>, where \<^verbatim>\<open>h1\<close> returns
  and \<^verbatim>\<open>h2\<close> throws: queue \<open>[1] @ 2 # [3]\<close>.
\<close>

theorem combineEvents_fail_fast_witness:
  "new_Set [CbFn 1, CbFn 2, CbFn 3] = [CbFn 1] @ CbFn 2 # [CbFn 3] \<and>
   execute second_throws InCall [CbFn 1] \<lparr>args = [plain_event]\<rparr> =
     ([Invoked 1, Fulfilled 1, Deferred], Completed, \<lparr>args = [plain_event]\<rparr>) \<and>
   cancelled (arg0 (args \<lparr>args = [plain_event]\<rparr>)) = Inr False \<and>
   fst (second_throws 2 \<lparr>args = [plain_event]\<rparr>) = Throws (Thrown ''boom'') \<and>
   trace (combineEvents [CbFn 1, CbFn 2, CbFn 3] second_throws \<lparr>args = [plain_event]\<rparr>) =
     [Invoked 1, Fulfilled 1, Deferred, Invoked 2, RejectedWith 2 (Thrown ''boom'')] \<and>
   ending (combineEvents [CbFn 1, CbFn 2, CbFn 3] second_throws \<lparr>args = [plain_event]\<rparr>) =
     Failed (Thrown ''boom'') \<and>
   returned (combineEvents [CbFn 1, CbFn 2, CbFn 3] second_throws \<lparr>args = [plain_event]\<rparr>) =
     Inr JUndefined \<and>
   3 \<notin> set (invoked (trace (combineEvents [CbFn 1, CbFn 2, CbFn 3] second_throws
                               \<lparr>args = [plain_event]\<rparr>)))"
proof -
  have q: "new_Set [CbFn 1, CbFn 2, CbFn 3] = [CbFn 1] @ CbFn 2 # [CbFn 3]"
    by (simp add: new_Set_def set_add_def)
  have c: "cancelled (arg0 (args \<lparr>args = [plain_event]\<rparr>)) = Inr False"
    by (simp add: cancelled_def arg0_def plain_event_def)
  have b: "execute second_throws InCall [CbFn 1] \<lparr>args = [plain_event]\<rparr> =
             ([Invoked 1, Fulfilled 1, Deferred], Completed, \<lparr>args = [plain_event]\<rparr>)"
    by code_simp
  have f0: "fst (second_throws 2 \<lparr>args = [plain_event]\<rparr>) = Throws (Thrown ''boom'')"
    by (simp add: second_throws_def)
  then have f: "fst (second_throws 2 \<lparr>args = [plain_event]\<rparr>) = Throws (Thrown ''boom'') \<or>
           fst (second_throws 2 \<lparr>args = [plain_event]\<rparr>) = Rejects (Thrown ''boom'')"
    by simp
  show ?thesis
    using combineEvents_fail_fast[OF q b c f] q b c f0 by simp
qed

text \<open>
  Claim C1 as stated fails: \<^verbatim>\<open>combineEvents(h1, h2)\<close> called with \<^verbatim>\<open>{}\<close>, where \<^verbatim>\<open>h1\<close>
  returns a promise that rejects (or where it throws), gives \<^verbatim>\<open>undefined\<close> back to its
  caller, not a promise that rejects with the error.
\<close>

theorem combineEvents_returns_no_promise:
  "fst (first_rejects 1 \<lparr>args = [plain_event]\<rparr>) = Rejects (Thrown ''boom'') \<and>
   returned (combineEvents [CbFn 1, CbFn 2] first_rejects \<lparr>args = [plain_event]\<rparr>) \<noteq>
     Inr (JPromise (RejectedP (Thrown ''boom''))) \<and>
   returned (combineEvents [CbFn 1, CbFn 2] first_rejects \<lparr>args = [plain_event]\<rparr>) =
     Inr JUndefined \<and>
   fst (first_throws 1 \<lparr>args = [plain_event]\<rparr>) = Throws (Thrown ''boom'') \<and>
   returned (combineEvents [CbFn 1, CbFn 2] first_throws \<lparr>args = [plain_event]\<rparr>) =
     Inr JUndefined"
  by (simp add: combineEvents_def new_Set_def set_add_def first_rejects_def first_throws_def
      plain_event_def cancelled_def arg0_def)

subsection \<open>C3\<close>

text \<open>
  Claim C3, as amended. For every invocation whose first argument is neither \<^verbatim>\<open>undefined\<close>
  nor \<^verbatim>\<open>null\<close> and has no own \<^verbatim>\<open>defaultPrevented\<close> property (a plain empty object, a
  primitive value), and stays so while the handlers run, the chain is never cancelled:
  when every handler returns or its promise fulfils, all unique non-absent entries are
  invoked, the chain completes, and the call of the combined handler returns
  \<^verbatim>\<open>undefined\<close> with no error from the cancellation test.
\<close>

theorem combineEvents_never_cancelled:
  assumes start: "hasOwn_defaultPrevented (arg0 (args w)) = Inr False"
    and step: "\<And>h v. CbFn h \<in> set cbs \<Longrightarrow> hasOwn_defaultPrevented (arg0 (args v)) = Inr False \<Longrightarrow>
                 (fst (beh h v) = Returns \<or> fst (beh h v) = Resolves) \<and>
                 hasOwn_defaultPrevented (arg0 (args (snd (beh h v)))) = Inr False"
  shows "ending (combineEvents cbs beh w) = Completed \<and>
         returned (combineEvents cbs beh w) = Inr JUndefined \<and>
         invoked (trace (combineEvents cbs beh w)) = handlers (first_occurrences cbs)"
proof -
  have en: "ending (combineEvents cbs beh w) = Completed"
    using uncancelled_run[where P = "\<lambda>v. hasOwn_defaultPrevented (arg0 (args v)) = Inr False"
        and w = w and cbs = cbs and beh = beh] start step
    by (simp add: cancelled_def)
  then show ?thesis
    by (simp add: returned_combineEvents completed_invoked)
qed

text \<open>
  The scenario of the specification: \<^verbatim>\<open>combine(a, b, c)\<close> called with \<^verbatim>\<open>{}\<close>, where
  \<^verbatim>\<open>b\<close> is asynchronous.
\<close>

theorem combineEvents_never_cancelled_witness:
  "hasOwn_defaultPrevented (arg0 (args \<lparr>args = [plain_event]\<rparr>)) = Inr False \<and>
   ending (combineEvents [CbFn 1, CbFn 2, CbFn 3] logs_123 \<lparr>args = [plain_event]\<rparr>) = Completed \<and>
   returned (combineEvents [CbFn 1, CbFn 2, CbFn 3] logs_123 \<lparr>args = [plain_event]\<rparr>) =
     Inr JUndefined \<and>
   invoked (trace (combineEvents [CbFn 1, CbFn 2, CbFn 3] logs_123 \<lparr>args = [plain_event]\<rparr>)) =
     [1, 2, 3]"
proof -
  have s: "hasOwn_defaultPrevented (arg0 (args \<lparr>args = [plain_event]\<rparr>)) = Inr False"
    by (simp add: arg0_def plain_event_def)
  have st: "(fst (logs_123 h v) = Returns \<or> fst (logs_123 h v) = Resolves) \<and>
            hasOwn_defaultPrevented (arg0 (args (snd (logs_123 h v)))) = Inr False"
    if "hasOwn_defaultPrevented (arg0 (args v)) = Inr False" for h v
    using that by (simp add: logs_123_def)
  have f: "handlers (first_occurrences [CbFn 1, CbFn 2, CbFn 3]) = [1, 2, 3]"
    by (simp add: first_occurrences_def)
  show ?thesis
    using combineEvents_never_cancelled[of "\<lparr>args = [plain_event]\<rparr>" "[CbFn 1, CbFn 2, CbFn 3]" logs_123,
        OF s st] s f
    by simp
qed

text \<open>
  Claim C3 as stated fails: with no argument at all, or with \<^verbatim>\<open>null\<close> as the first
  argument, the cancellation test itself throws a TypeError out of the combined handler
  and the handler in the list is not invoked.
\<close>

theorem combineEvents_no_argument_raises:
  "returned (combineEvents [CbFn 1] logs_123 \<lparr>args = []\<rparr>) = Inl TypeError \<and>
   ending (combineEvents [CbFn 1] logs_123 \<lparr>args = []\<rparr>) = Raised TypeError \<and>
   invoked (trace (combineEvents [CbFn 1] logs_123 \<lparr>args = []\<rparr>)) = [] \<and>
   returned (combineEvents [CbFn 1] logs_123 \<lparr>args = [JNull]\<rparr>) = Inl TypeError \<and>
   invoked (trace (combineEvents [CbFn 1] logs_123 \<lparr>args = [JNull]\<rparr>)) = []"
  by (simp add: combineEvents_def new_Set_def set_add_def cancelled_def arg0_def escapes_def)

subsection \<open>C4\<close>



subsection \<open>C5\<close>




subsection \<open>C9\<close>

text \<open>
  Claim C9. For an empty list of entries, or a list whose entries are all absent, and
  any arguments (none at all included), an invocation of the combined handler calls no
  handler, returns \<^verbatim>\<open>undefined\<close> without an error and leaves the world as it was; the
  chain completes after one timer per absent member of the set, at most two, and for the
  empty list at once.
\<close>

theorem combineEvents_nothing_to_run:
  assumes "\<forall>cb \<in> set cbs. cb = CbNull \<or> cb = CbUndefined"
  shows "invoked (trace (combineEvents cbs beh w)) = [] \<and>
         ending (combineEvents cbs beh w) = Completed \<and>
         returned (combineEvents cbs beh w) = Inr JUndefined \<and>
         final (combineEvents cbs beh w) = w \<and>
         trace (combineEvents cbs beh w) = replicate (length (new_Set cbs)) Deferred \<and>
         length (trace (combineEvents cbs beh w)) \<le> 2 \<and>
         (cbs = [] \<longrightarrow> trace (combineEvents cbs beh w) = [])"
proof -
  have a: "\<forall>cb \<in> set (new_Set cbs). cb = CbNull \<or> cb = CbUndefined"
    using assms by (simp add: set_new_Set)
  have run: "execute beh InCall (new_Set cbs) w =
               (replicate (length (new_Set cbs)) Deferred, Completed, w)"
    by (rule execute_absent[OF a distinct_new_Set])
  have tr: "trace (combineEvents cbs beh w) = replicate (length (new_Set cbs)) Deferred"
    and en: "ending (combineEvents cbs beh w) = Completed"
    and fi: "final (combineEvents cbs beh w) = w"
    using run by (simp_all add: trace_combineEvents ending_combineEvents final_combineEvents)
  have inv: "invoked (replicate n Deferred) = []" for n
    by (induction n) auto
  have short: "length (new_Set cbs) \<le> 2"
    by (rule absent_short[OF a distinct_new_Set])
  have emp: "trace (combineEvents [] beh w) = []"
    by (simp add: trace_combineEvents new_Set_def)
  have "invoked (trace (combineEvents cbs beh w)) = []"
    by (simp add: tr inv)
  moreover have "returned (combineEvents cbs beh w) = Inr JUndefined"
    by (simp add: en returned_combineEvents)
  moreover have "length (trace (combineEvents cbs beh w)) \<le> 2"
    using short by (simp add: tr)
  moreover have "cbs = [] \<longrightarrow> trace (combineEvents cbs beh w) = []"
    using emp by simp
  ultimately show ?thesis
    using tr en fi by simp
qed

text \<open>
  The theorem at \<^verbatim>\<open>combine()\<close> and at \<^verbatim>\<open>combine(null, undefined, null)\<close>, both called
  without arguments.
\<close>

theorem combineEvents_nothing_to_run_witness:
  "trace (combineEvents [] logs_123 \<lparr>args = []\<rparr>) = [] \<and>
   ending (combineEvents [] logs_123 \<lparr>args = []\<rparr>) = Completed \<and>
   returned (combineEvents [] logs_123 \<lparr>args = []\<rparr>) = Inr JUndefined \<and>
   trace (combineEvents [CbNull, CbUndefined, CbNull] logs_123 \<lparr>args = []\<rparr>) =
     [Deferred, Deferred] \<and>
   invoked (trace (combineEvents [CbNull, CbUndefined, CbNull] logs_123 \<lparr>args = []\<rparr>)) = [] \<and>
   ending (combineEvents [CbNull, CbUndefined, CbNull] logs_123 \<lparr>args = []\<rparr>) = Completed \<and>
   returned (combineEvents [CbNull, CbUndefined, CbNull] logs_123 \<lparr>args = []\<rparr>) =
     Inr JUndefined"
proof -
  have e: "\<forall>cb \<in> set ([] :: callback list). cb = CbNull \<or> cb = CbUndefined"
    by simp
  have a: "\<forall>cb \<in> set [CbNull, CbUndefined, CbNull]. cb = CbNull \<or> cb = CbUndefined"
    by simp
  have n: "new_Set [CbNull, CbUndefined, CbNull] = [CbNull, CbUndefined]"
    by (simp add: new_Set_def set_add_def)
  show ?thesis
    using combineEvents_nothing_to_run[OF e, of logs_123 "\<lparr>args = []\<rparr>"]
      combineEvents_nothing_to_run[OF a, of logs_123 "\<lparr>args = []\<rparr>"] n
    by (simp add: new_Set_def)
qed

subsection \<open>C10\<close>

text \<open>
  Claim C10. The cancellation test reads only an own \<^verbatim>\<open>defaultPrevented\<close> of the first
  argument: its answer for an object does not depend on what the object inherits; an
  object that has a truthy \<^verbatim>\<open>defaultPrevented\<close> through its prototype only is not
  cancelled, although \<^verbatim>\<open>event.defaultPrevented\<close> reads truthy; and with such a first
  argument, kept so by handlers that all settle, the chain never stops: every unique
  handler is invoked and the chain completes.
\<close>

theorem cancellation_reads_own_property_only:
  "cancelled (JObj own inh) = cancelled (JObj own inh') \<and>
   (inherits_flag_only ev \<longrightarrow>
      cancelled ev = Inr False \<and> (\<exists>v. read_defaultPrevented ev = Inr v \<and> truthy v)) \<and>
   (inherits_flag_only (arg0 (args w)) \<and>
    (\<forall>h v. CbFn h \<in> set cbs \<and> inherits_flag_only (arg0 (args v)) \<longrightarrow>
       (fst (beh h v) = Returns \<or> fst (beh h v) = Resolves) \<and>
       inherits_flag_only (arg0 (args (snd (beh h v))))) \<longrightarrow>
      ending (combineEvents cbs beh w) = Completed \<and>
      invoked (trace (combineEvents cbs beh w)) = handlers (first_occurrences cbs) \<and>
      returned (combineEvents cbs beh w) = Inr JUndefined)"
proof (intro conjI impI)
  show "cancelled (JObj own inh) = cancelled (JObj own inh')"
    by (cases "map_of own ''defaultPrevented''")
       (auto simp: cancelled_def map_of_eq_None_iff)
next
  assume "inherits_flag_only ev"
  then show "cancelled ev = Inr False"
    by (cases ev) (auto simp: inherits_flag_only_def cancelled_def)
next
  assume i: "inherits_flag_only ev"
  then obtain own inherited where ev: "ev = JObj own inherited"
    by (cases ev) (auto simp: inherits_flag_only_def)
  with i have "map_of own ''defaultPrevented'' = None"
    by (simp add: inherits_flag_only_def map_of_eq_None_iff)
  with i ev show "\<exists>v. read_defaultPrevented ev = Inr v \<and> truthy v"
    by (auto simp: inherits_flag_only_def split: option.splits)
next
  assume a: "inherits_flag_only (arg0 (args w)) \<and>
    (\<forall>h v. CbFn h \<in> set cbs \<and> inherits_flag_only (arg0 (args v)) \<longrightarrow>
       (fst (beh h v) = Returns \<or> fst (beh h v) = Resolves) \<and>
       inherits_flag_only (arg0 (args (snd (beh h v)))))"
  have ok: "cancelled (arg0 (args v)) = Inr False" if "inherits_flag_only (arg0 (args v))" for v
    using that by (cases "arg0 (args v)") (auto simp: inherits_flag_only_def cancelled_def)
  have en: "ending (combineEvents cbs beh w) = Completed"
    using uncancelled_run[where P = "\<lambda>v. inherits_flag_only (arg0 (args v))"
        and w = w and cbs = cbs and beh = beh] a ok
    by blast
  show "ending (combineEvents cbs beh w) = Completed" by (rule en)
  show "invoked (trace (combineEvents cbs beh w)) = handlers (first_occurrences cbs)"
    by (rule completed_invoked[OF en])
  show "returned (combineEvents cbs beh w) = Inr JUndefined"
    by (simp add: returned_combineEvents en)
qed

text \<open>
  The theorem at \<^verbatim>\<open>combine(h1, h2)\<close> called with an object whose prototype carries
  \<^verbatim>\<open>defaultPrevented = true\<close>.
\<close>

theorem cancellation_reads_own_property_only_witness:
  "inherits_flag_only inheriting_event \<and>
   cancelled inheriting_event = Inr False \<and>
   read_defaultPrevented inheriting_event = Inr (JBool True) \<and>
   ending (combineEvents [CbFn 1, CbFn 2] logs_123 \<lparr>args = [inheriting_event]\<rparr>) = Completed \<and>
   invoked (trace (combineEvents [CbFn 1, CbFn 2] logs_123 \<lparr>args = [inheriting_event]\<rparr>)) =
     [1, 2]"
proof -
  have i: "inherits_flag_only inheriting_event"
    by (simp add: inherits_flag_only_def inheriting_event_def)
  have r: "read_defaultPrevented inheriting_event = Inr (JBool True)"
    by (simp add: inheriting_event_def)
  have i0: "inherits_flag_only (arg0 (args \<lparr>args = [inheriting_event]\<rparr>))"
    using i by (simp add: arg0_def)
  have st: "\<forall>h v. CbFn h \<in> set [CbFn 1, CbFn 2] \<and> inherits_flag_only (arg0 (args v)) \<longrightarrow>
       (fst (logs_123 h v) = Returns \<or> fst (logs_123 h v) = Resolves) \<and>
       inherits_flag_only (arg0 (args (snd (logs_123 h v))))"
    by (simp add: logs_123_def)
  have f: "handlers (first_occurrences [CbFn 1, CbFn 2]) = [1, 2]"
    by (simp add: first_occurrences_def)
  note t = cancellation_reads_own_property_only[of _ _ _ inheriting_event
      "\<lparr>args = [inheriting_event]\<rparr>" "[CbFn 1, CbFn 2]" logs_123]
  from t i i0 st r f show ?thesis by simp
qed

subsection \<open>C6\<close>

text \<open>
  Claim C6. For every condition string, \<^verbatim>\<open>safeMatch\<close> returns a boolean and lets no
  exception out. It returns \<^verbatim>\<open>false\<close> when there is no window, when the window has no
  own \<^verbatim>\<open>matchMedia\<close>, when \<^verbatim>\<open>matchMedia\<close> cannot be called, and when the query throws;
  when the window has its own \<^verbatim>\<open>matchMedia\<close> and the query returns, it returns the
  \<^verbatim>\<open>matches\<close> of the result.
\<close>

theorem safeMatch_false_on_failure:
  "(\<exists>b. safeMatch win q = Inr b) \<and>
   (win = None \<longrightarrow> safeMatch win q = Inr False) \<and>
   (win = Some v \<and> own_matchMedia v = None \<longrightarrow> safeMatch win q = Inr False) \<and>
   (win = Some v \<and> own_matchMedia v = Some NotCallable \<longrightarrow> safeMatch win q = Inr False) \<and>
   (win = Some v \<and> own_matchMedia v = Some (MatchMedia f) \<and> f q = Inl e \<longrightarrow>
      safeMatch win q = Inr False) \<and>
   (win = Some v \<and> own_matchMedia v = Some (MatchMedia f) \<and> f q = Inr m \<longrightarrow>
      safeMatch win q = Inr m)"
proof (intro conjI impI)
  show "\<exists>b. safeMatch win q = Inr b" by (rule safeMatch_Inr)
qed (auto simp: safeMatch_def safeMatch_try_def isServer_def window_matchMedia_def
      call_matches_def)

text \<open>
  The theorem without a window, in a window without \<^verbatim>\<open>matchMedia\<close>, in a browser
  whose display matches \<^verbatim>\<open>wide\<close> and throws on \<^verbatim>\<open>bogus\<close>, and in a window that
  only inherits \<^verbatim>\<open>matchMedia\<close>.
\<close>

theorem safeMatch_false_on_failure_witness:
  "safeMatch None ''wide'' = Inr False \<and>
   own_matchMedia headless = None \<and>
   safeMatch (Some headless) ''wide'' = Inr False \<and>
   own_matchMedia browser = Some (MatchMedia wide_display) \<and>
   wide_display ''bogus'' = Inl (Thrown ''SyntaxError'') \<and>
   safeMatch (Some browser) ''bogus'' = Inr False \<and>
   wide_display ''wide'' = Inr True \<and>
   safeMatch (Some browser) ''wide'' = Inr True \<and>
   own_matchMedia inheriting_window = None \<and>
   safeMatch (Some inheriting_window) ''wide'' = Inr False"
proof -
  have i: "own_matchMedia inheriting_window = None"
    by (simp add: inheriting_window_def)
  note t5 = safeMatch_false_on_failure[of "Some inheriting_window" "''wide''" inheriting_window]
  from t5 i have r5: "safeMatch (Some inheriting_window) ''wide'' = Inr False" by simp
  have h: "own_matchMedia headless = None"
    by (simp add: headless_def)
  have b: "own_matchMedia browser = Some (MatchMedia wide_display)"
    by (simp add: browser_def)
  have x: "wide_display ''bogus'' = Inl (Thrown ''SyntaxError'')"
    by (simp add: wide_display_def)
  have y: "wide_display ''wide'' = Inr True"
    by (simp add: wide_display_def)
  note t1 = safeMatch_false_on_failure[of None "''wide''"]
  note t2 = safeMatch_false_on_failure[of "Some headless" "''wide''" headless]
  note t3 = safeMatch_false_on_failure[of "Some browser" "''bogus''" browser wide_display
      "Thrown ''SyntaxError''"]
  note t4 = safeMatch_false_on_failure[of "Some browser" "''wide''" browser wide_display _ True]
  from t1 have r1: "safeMatch None ''wide'' = Inr False" by simp
  from t2 h have r2: "safeMatch (Some headless) ''wide'' = Inr False" by simp
  from t3 b x have r3: "safeMatch (Some browser) ''bogus'' = Inr False" by simp
  from t4 b y have r4: "safeMatch (Some browser) ''wide'' = Inr True" by simp
  from r1 r2 r3 r4 r5 h b x y i show ?thesis by simp
qed

subsection \<open>C7\<close>

text \<open>
  Claim C7 holds for every mapping that has no name \<^verbatim>\<open>__proto__\<close>: the result has
  exactly the names of the mapping, each with the boolean that \<^verbatim>\<open>safeMatch\<close> gives for
  that name's condition.
\<close>

lemma matching_record_names:
  assumes "''__proto__'' \<notin> set (obj_keys q)"
  shows "\<exists>rs. matching win (QRecord q) = Inr (RRecord rs) \<and>
           set (obj_keys rs) = set (obj_keys q) \<and>
           distinct (obj_keys rs) \<and>
           (\<forall>k \<in> set (obj_keys q). map_of rs k = Some (match_of win (query_at q k)))"
proof -
  from matching_reduce_keys[OF assms, of win q "[]"] obtain rs where
    r: "matching_reduce win q (obj_keys q) [] = Inr rs"
    and k: "fst ` set rs = set (obj_keys q)"
    and m: "\<forall>k. map_of rs k = (if k \<in> set (obj_keys q) then Some (match_of win (query_at q k)) else None)"
    and d: "distinct (map fst rs)"
    by auto
  from r have "matching win (QRecord q) = Inr (RRecord rs)"
    by (simp add: matching_def)
  with k m d show ?thesis
    by (auto simp: obj_keys_def)
qed

lemma matching_scenario:
  "matching (Some browser) (QRecord [(''mobile'', ''narrow''), (''desktop'', ''wide'')]) =
     Inr (RRecord [(''mobile'', False), (''desktop'', True)])"
  by code_simp

text \<open>
  Claim C7 fails on the code for a mapping with the name \<^verbatim>\<open>__proto__\<close> (an own key, as
  \<^verbatim>\<open>JSON.parse\<close> or a computed key creates it): \<^verbatim>\<open>Object.keys\<close> lists the name, the
  condition is evaluated, and the assignment \<^verbatim>\<open>rs["__proto__"] = ...\<close> stores nothing,
  so the result lacks the name.
\<close>

theorem matching_drops_proto_name:
  "obj_keys [(''__proto__'', ''wide'')] = [''__proto__''] \<and>
   matching (Some browser) (QRecord [(''__proto__'', ''wide'')]) = Inr (RRecord []) \<and>
   matching (Some browser) (QRecord [(''mobile'', ''narrow''), (''__proto__'', ''wide'')]) =
     Inr (RRecord [(''mobile'', False)])"
  by code_simp

subsection \<open>C8\<close>

text \<open>
  Claim C8. \<^verbatim>\<open>isEqual\<close> is reflexive for every result, two empty mappings included. Two
  single booleans are equal exactly when they are the same. Two mappings of different
  sizes are not equal. Two mappings (objects: their names are distinct) are equal exactly
  when they have the same number of names, the same names, and the same boolean under
  every name; that is, exactly when they are the same mapping, whatever the order of the
  names.
\<close>

theorem isEqual_structural:
  "isEqual r r \<and>
   isEqual (RRecord []) (RRecord []) \<and>
   (isEqual (RBool x) (RBool y) \<longleftrightarrow> x = y) \<and>
   (length a \<noteq> length b \<longrightarrow> \<not> isEqual (RRecord a) (RRecord b)) \<and>
   (distinct (obj_keys a) \<and> distinct (obj_keys b) \<longrightarrow>
      (isEqual (RRecord a) (RRecord b) \<longleftrightarrow>
         length a = length b \<and> set (obj_keys a) = set (obj_keys b) \<and>
         (\<forall>k \<in> set (obj_keys a). map_of a k = map_of b k)) \<and>
      (isEqual (RRecord a) (RRecord b) \<longleftrightarrow> map_of a = map_of b))"
proof (intro conjI impI)
  show "isEqual r r" by (rule isEqual_refl)
  show "isEqual (RRecord []) (RRecord [])" by (rule isEqual_refl)
  show "isEqual (RBool x) (RBool y) \<longleftrightarrow> x = y" by (simp add: isEqual_def)
next
  assume "length a \<noteq> length b"
  then show "\<not> isEqual (RRecord a) (RRecord b)"
    by (simp add: isEqual_def Let_def obj_keys_def)
next
  assume d: "distinct (obj_keys a) \<and> distinct (obj_keys b)"
  then show s: "isEqual (RRecord a) (RRecord b) \<longleftrightarrow>
         length a = length b \<and> set (obj_keys a) = set (obj_keys b) \<and>
         (\<forall>k \<in> set (obj_keys a). map_of a k = map_of b k)"
    using isEqual_records[of a b] by simp
  have len: "length a = length b" if "set (obj_keys a) = set (obj_keys b)"
  proof -
    have "card (set (obj_keys a)) = length (obj_keys a)" "card (set (obj_keys b)) = length (obj_keys b)"
      using d by (simp_all add: distinct_card)
    with that show ?thesis by (simp add: obj_keys_def)
  qed
  show "isEqual (RRecord a) (RRecord b) \<longleftrightarrow> map_of a = map_of b"
    unfolding s same_map_iff using len by blast
qed

text \<open>
  The examples of the specification: \<^verbatim>\<open>{a: true, b: false}\<close> against
  \<^verbatim>\<open>{b: false, a: true}\<close>, and \<^verbatim>\<open>{a: true}\<close> against \<^verbatim>\<open>{a: true, b: false}\<close>.
\<close>

theorem isEqual_structural_witness:
  "distinct (obj_keys [(''a'', True), (''b'', False)]) \<and>
   distinct (obj_keys [(''b'', False), (''a'', True)]) \<and>
   map_of [(''a'', True), (''b'', False)] = map_of [(''b'', False), (''a'', True)] \<and>
   isEqual (RRecord [(''a'', True), (''b'', False)]) (RRecord [(''b'', False), (''a'', True)]) \<and>
   length [(''a'', True)] \<noteq> length [(''a'', True), (''b'', False)] \<and>
   \<not> isEqual (RRecord [(''a'', True)]) (RRecord [(''a'', True), (''b'', False)])"
proof -
  have d1: "distinct (obj_keys [(''a'', True), (''b'', False)])"
    and d2: "distinct (obj_keys [(''b'', False), (''a'', True)])"
    by (simp_all add: obj_keys_def)
  have m: "map_of [(''a'', True), (''b'', False)] = map_of [(''b'', False), (''a'', True)]"
    by (rule ext) simp
  have l: "length [(''a'', True)] \<noteq> length [(''a'', True), (''b'', False)]"
    by simp
  note t1 = isEqual_structural[of _ _ _ "[(''a'', True), (''b'', False)]" "[(''b'', False), (''a'', True)]"]
  note t2 = isEqual_structural[of _ _ _ "[(''a'', True)]" "[(''a'', True), (''b'', False)]"]
  from t1 d1 d2 m
  have e: "isEqual (RRecord [(''a'', True), (''b'', False)]) (RRecord [(''b'', False), (''a'', True)])"
    by blast
  from t2 l
  have n: "\<not> isEqual (RRecord [(''a'', True)]) (RRecord [(''a'', True), (''b'', False)])"
    by blast
  from d1 d2 m e l n show ?thesis by blast
qed

subsection \<open>C2\<close>

text \<open>
  Claim C2 fails on the code. The dependency list of both hooks holds the rest-parameter
  array itself, which is a new array at every call, so the comparison of the memo cell
  fails at every render: from the first render on, each render of \<^verbatim>\<open>useCombineEvents\<close>
  and of \<^verbatim>\<open>useCombineRefs\<close> returns a handler with a new identity, also when it is given
  the very same entries.
\<close>

theorem useCombine_recomputes_every_render:
  "ident (fst (useCombineEvents cbs (snd (useCombineEvents cbs (mount n))))) \<noteq>
     ident (fst (useCombineEvents cbs (mount n))) \<and>
   ident (fst (useCombineRefs refs (snd (useCombineRefs refs (mount n))))) \<noteq>
     ident (fst (useCombineRefs refs (mount n)))"
  by (simp add: useCombineEvents_def useCombineRefs_def useMemo_def new_closure_def fresh_def
      mount_def object_is_def)

end
